theory Spec2Isabelle
  imports Complex_Main "HOL-Library.Sublist" "HOL-Library.Product_Lexorder"
begin

section \<open>Strings as the Python code uses them\<close>

text \<open>
  Python strings are modelled as \<^typ>\<open>string\<close>, one \<^typ>\<open>char\<close> per character, for
  the characters below code point 256. In that range the regular-expression class
  \<^verbatim>\<open>\d\<close> is exactly the ten ASCII digits, \<^verbatim>\<open>str.lower\<close> moves the capital
  letters (ASCII and the accented ones from 192 to 222, the sign 215 apart) up by 32,
  and \<^verbatim>\<open>str.strip\<close> removes the characters for which \<^verbatim>\<open>isspace\<close> holds.
\<close>

text \<open>\<^verbatim>\<open>s.startswith(p)\<close>\<close>

fun startswith :: "string \<Rightarrow> string \<Rightarrow> bool" where
  "startswith s [] = True"
| "startswith [] (p # ps) = False"
| "startswith (c # cs) (p # ps) = (c = p \<and> startswith cs ps)"

text \<open>\<^verbatim>\<open>p in s\<close>: \<open>p\<close> occurs in \<open>s\<close> as a contiguous piece.\<close>

fun str_in :: "string \<Rightarrow> string \<Rightarrow> bool" where
  "str_in p [] = (p = [])"
| "str_in p (c # cs) = (startswith (c # cs) p \<or> str_in p cs)"

definition is_digit :: "char \<Rightarrow> bool" where
  "is_digit c = (c \<in> set ''0123456789'')"

definition is_space :: "char \<Rightarrow> bool" where
  "is_space c =
     (let n = (of_char c :: nat)
      in (9 \<le> n \<and> n \<le> 13) \<or> (28 \<le> n \<and> n \<le> 32) \<or> n = 133 \<or> n = 160)"

definition lower_char :: "char \<Rightarrow> char" where
  "lower_char c =
     (let n = (of_char c :: nat)
      in if (65 \<le> n \<and> n \<le> 90) \<or> (192 \<le> n \<and> n \<le> 222 \<and> n \<noteq> 215)
         then char_of (n + 32) else c)"

definition lower :: "string \<Rightarrow> string" where
  "lower s = map lower_char s"

definition strip :: "string \<Rightarrow> string" where
  "strip s = rev (dropWhile is_space (rev (dropWhile is_space s)))"

text \<open>\<^verbatim>\<open>re.sub(r'[^\d]', '', s)\<close>: every character that is not a digit is removed.\<close>

definition strip_non_digits :: "string \<Rightarrow> string" where
  "strip_non_digits s = filter is_digit s"

text \<open>\<^verbatim>\<open>if cleaned.startswith('0'): cleaned = cleaned[1:]\<close>\<close>

definition drop_leading_zero :: "string \<Rightarrow> string" where
  "drop_leading_zero s = (if startswith s ''0'' then drop 1 s else s)"

text \<open>The decimal numeral an f-string puts in place of a non-negative integer.\<close>

definition digit_char :: "nat \<Rightarrow> char" where
  "digit_char d = ''0123456789'' ! d"

function str_nat :: "nat \<Rightarrow> string" where
  "str_nat n = (if n < 10 then [digit_char n] else str_nat (n div 10) @ [digit_char (n mod 10)])"
  by pat_completeness auto
termination
  by (relation "measure (\<lambda>n. n)") auto

declare str_nat.simps [simp del]

section \<open>\<^verbatim>\<open>format_mobile_number\<close>\<close>

text \<open>
  The argument is the \<^verbatim>\<open>mobile\<close> field of a customer record. A falsy argument (the
  empty string, or the value \<^verbatim>\<open>False\<close> that the remote service sends for an unset
  field) gives the empty string; both are the empty string here.
\<close>

definition format_mobile_number :: "string \<Rightarrow> string" where
  "format_mobile_number mobile =
     (if mobile = [] then []
      else
        let cleaned = drop_leading_zero (strip_non_digits mobile)
        in if \<not> startswith cleaned ''91'' \<and> length cleaned = 10 then ''+91'' @ cleaned
           else if length cleaned = 12 \<and> startswith cleaned ''91'' then ''+'' @ cleaned
           else mobile)"

section \<open>Remote calls\<close>

text \<open>
  A call of \<^verbatim>\<open>models.execute_kw\<close> either raises (\<open>Fault\<close>), or answers with
  something that is not a list (\<open>NotList\<close>), or answers with a list. The remote
  service is a parameter of every fetch function.
\<close>

datatype 'a rpc = Fault | NotList | Reply "'a list"

section \<open>\<^verbatim>\<open>fetch_pos_configs\<close>: the terminals of a branch\<close>

record pos_config =
  c_id :: int
  c_name :: string

definition BRANCH_KEYWORDS :: "(string \<times> string list) list" where
  "BRANCH_KEYWORDS =
     [(''CBE'', [''CB'', ''CBE'']),
      (''TN'', [''TN'']),
      (''MLM'', [''MLM'']),
      (''HYD'', [''HYD'']),
      (''JYR'', [''JYR'']),
      (''Vizag'', [''Vizag'', ''VZG'']),
      (''Saree Trails'', [''PUNE''])]"

text \<open>\<^verbatim>\<open>BRANCH_KEYWORDS.get(branch_name, [branch_name])\<close>\<close>

definition branch_keywords :: "string \<Rightarrow> string list" where
  "branch_keywords branch_name =
     (case map_of BRANCH_KEYWORDS branch_name of Some kws \<Rightarrow> kws | None \<Rightarrow> [branch_name])"

text \<open>\<^verbatim>\<open>f' {kw.lower()} ' in f' {name} '\<close>\<close>

definition contains_keyword :: "string \<Rightarrow> string \<Rightarrow> bool" where
  "contains_keyword kw name = str_in ('' '' @ lower kw @ '' '') ('' '' @ name @ '' '')"

text \<open>
  The body of the loop over the fetched terminals: \<open>raw_name\<close> is
  \<^verbatim>\<open>config.get('name', '')\<close>, and the result tells whether the terminal is appended
  to \<^verbatim>\<open>filtered_configs\<close>.
\<close>

definition config_accepted :: "string \<Rightarrow> string \<Rightarrow> bool" where
  "config_accepted branch_name raw_name =
     (let keywords = branch_keywords branch_name;
          name = lower (strip raw_name)
      in if name = [] then False
         else if str_in ''local expo'' name \<and> branch_name = ''Saree Trails''
           then list_ex (\<lambda>kw. contains_keyword kw name) keywords
         else
           let starts_with_keyword = list_ex (\<lambda>kw. startswith name (lower kw)) keywords;
               contains_keyword = list_ex (\<lambda>kw. contains_keyword kw name) keywords
           in starts_with_keyword \<or> contains_keyword)"

text \<open>
  The whole function. An element of the answer that is not a dictionary is \<open>None\<close>
  and is skipped; a fault of the call and an empty answer give the empty list.
\<close>

definition fetch_pos_configs :: "pos_config option rpc \<Rightarrow> string \<Rightarrow> pos_config list" where
  "fetch_pos_configs answer branch_name =
     (case answer of
        Fault \<Rightarrow> []
      | NotList \<Rightarrow> []
      | Reply configs \<Rightarrow>
          [config. Some config \<leftarrow> configs, config_accepted branch_name (c_name config)])"


section \<open>\<^verbatim>\<open>fetch_order_ids\<close>: the id scan\<close>

text \<open>
  The search call is a function of the offset and the limit (the domain is the same in
  every call of one scan); it raises (\<open>None\<close>) or returns a page of ids. The loop has
  no bound of its own, so it is a partial function: no result means that it runs
  forever. Besides the outcome of the loop (\<open>None\<close> when a call raised, the ids
  otherwise) the result lists the offsets of the search calls issued, in order.
\<close>

type_synonym search = "nat \<Rightarrow> nat \<Rightarrow> int list option"

partial_function (option) scan_loop ::
  "search \<Rightarrow> nat \<Rightarrow> int list \<Rightarrow> nat \<Rightarrow> nat list \<Rightarrow> (int list option \<times> nat list) option"
where
  "scan_loop search limit order_ids offset calls =
     (case search offset limit of
        None \<Rightarrow> Some (None, calls @ [offset])
      | Some batch \<Rightarrow>
          if batch = [] then Some (Some order_ids, calls @ [offset])
          else scan_loop search limit (order_ids @ batch) (offset + length batch)
                 (calls @ [offset]))"

text \<open>The handler of the function turns a raised call into the empty list.\<close>

definition fetch_order_ids :: "search \<Rightarrow> nat \<Rightarrow> int list option" where
  "fetch_order_ids search order_batch_size =
     map_option (\<lambda>(outcome, calls). case outcome of None \<Rightarrow> [] | Some order_ids \<Rightarrow> order_ids)
       (scan_loop search order_batch_size [] 0 [])"

definition search_calls :: "search \<Rightarrow> nat \<Rightarrow> nat list option" where
  "search_calls search order_batch_size =
     map_option snd (scan_loop search order_batch_size [] 0 [])"

section \<open>Batched reads\<close>

text \<open>
  \<^verbatim>\<open>for i in range(0, len(ids), n): batch_ids = ids[i:i+n]\<close> for a positive step:
  the slices in order.
\<close>

function chunks :: "nat \<Rightarrow> 'a list \<Rightarrow> 'a list list" where
  "chunks n ids = (if n = 0 \<or> ids = [] then [] else take n ids # chunks n (drop n ids))"
  by pat_completeness auto
termination
  by (relation "measure (\<lambda>(n, ids). length ids)") auto

declare chunks.simps [simp del]

text \<open>
  The body of the read loop: a raised call leaves the loop (\<open>None\<close>), an answer that
  is falsy or not a list is passed over, a list is appended.
\<close>

fun read_batches :: "('i list \<Rightarrow> 'a rpc) \<Rightarrow> 'i list list \<Rightarrow> 'a list \<Rightarrow> 'a list option" where
  "read_batches read [] acc = Some acc"
| "read_batches read (batch_ids # rest) acc =
     (case read batch_ids of
        Fault \<Rightarrow> None
      | NotList \<Rightarrow> read_batches read rest acc
      | Reply batch \<Rightarrow> read_batches read rest (acc @ batch))"

text \<open>
  The loop over \<^verbatim>\<open>range(0, len(ids), read_batch_size)\<close>: a step of zero makes
  \<^verbatim>\<open>range\<close> raise, a negative step gives no iteration.
\<close>

definition read_in_batches :: "('i list \<Rightarrow> 'a rpc) \<Rightarrow> int \<Rightarrow> 'i list \<Rightarrow> 'a list option" where
  "read_in_batches read read_batch_size ids =
     (if read_batch_size = 0 then None
      else if read_batch_size < 0 then Some []
      else read_batches read (chunks (nat read_batch_size) ids) [])"

section \<open>Orders and reference fields\<close>

text \<open>
  The value a reference resolves to: \<^verbatim>\<open>None\<close>, a boolean or an integer. A
  reference field of an order is a boolean, an integer, a list (given by its first
  element when it has one; the label after it plays no part), or anything else, the
  absent key included.
\<close>

datatype pyid = PNone | PBool bool | PInt int

datatype ref_field = ROther | RBool bool | RInt int | REmptyList | RList pyid

text \<open>
  The source repeats these lines wherever it reads \<^verbatim>\<open>partner_id\<close> or
  \<^verbatim>\<open>config_id\<close>; \<^verbatim>\<open>isinstance(x, int)\<close> holds for a boolean too.
\<close>

fun normalize_ref :: "ref_field \<Rightarrow> pyid" where
  "normalize_ref (RList first) = first"
| "normalize_ref (RBool b) = PBool b"
| "normalize_ref (RInt i) = PInt i"
| "normalize_ref REmptyList = PNone"
| "normalize_ref ROther = PNone"

text \<open>\<^verbatim>\<open>if partner_id:\<close>\<close>

fun truthy :: "pyid \<Rightarrow> bool" where
  "truthy PNone = False"
| "truthy (PBool b) = b"
| "truthy (PInt i) = (i \<noteq> 0)"

text \<open>
  The dictionary key of a truthy id: \<^verbatim>\<open>True\<close> is the key 1. (No falsy id is
  ever used as a key.)
\<close>

fun key_of :: "pyid \<Rightarrow> int" where
  "key_of (PInt i) = i"
| "key_of (PBool b) = (if b then 1 else 0)"
| "key_of PNone = 0"

text \<open>
  An order as \<^verbatim>\<open>read\<close> returns it. \<open>amount_total\<close> is \<open>None\<close> when the key is
  absent; \<open>date_order\<close> is \<open>None\<close> when the value is absent or not a string, which
  \<^verbatim>\<open>strptime\<close> rejects. An amount is a float, given by the real number it
  stands for. An element of the order list that is not a dictionary is \<open>None\<close>.
\<close>

record order =
  partner_id :: ref_field
  config_id :: ref_field
  amount_total :: "real option"
  date_order :: "string option"
  pos_reference :: string

text \<open>\<^verbatim>\<open>order.get('amount_total', 0)\<close>\<close>

definition amount :: "order \<Rightarrow> real" where
  "amount ord = (case amount_total ord of None \<Rightarrow> 0 | Some a \<Rightarrow> a)"

text \<open>
  The program adds and divides floats, and the machine rounds the result of each such
  operation. The operations are therefore parameters of the model: \<open>fadd\<close> for
  \<^verbatim>\<open>x + y\<close>, \<open>fdiv\<close> for \<^verbatim>\<open>x / y\<close> and \<open>fsum\<close> for the built-in
  \<^verbatim>\<open>sum\<close> of a list of floats. A theorem that needs a property of them states it.
\<close>

type_synonym float_op = "real \<Rightarrow> real \<Rightarrow> real"

text \<open>\<^verbatim>\<open>for order in orders: if not isinstance(order, dict): continue\<close>\<close>

definition dicts :: "'a option list \<Rightarrow> 'a list" where
  "dicts items = [d. Some d \<leftarrow> items]"

section \<open>\<^verbatim>\<open>fetch_order_details\<close>\<close>

definition fetch_order_details :: "(int list \<Rightarrow> order option rpc) \<Rightarrow> int \<Rightarrow> int list \<Rightarrow> order option list" where
  "fetch_order_details read read_batch_size order_ids =
     (case read_in_batches read read_batch_size order_ids of
        None \<Rightarrow> []
      | Some orders \<Rightarrow> orders)"

section \<open>\<^verbatim>\<open>fetch_related_data\<close>\<close>

record partner =
  p_id :: int
  p_name :: string
  p_mobile :: string
  p_email :: string

text \<open>The first loop: the truthy customer ids and terminal ids of the orders.\<close>

definition collect_ids :: "order option list \<Rightarrow> pyid list \<times> pyid list" where
  "collect_ids orders =
     (filter truthy (map (\<lambda>ord. normalize_ref (partner_id ord)) (dicts orders)),
      filter truthy (map (\<lambda>ord. normalize_ref (config_id ord)) (dicts orders)))"

text \<open>\<^verbatim>\<open>{x['id']: x for x in xs}\<close>: a later element replaces an earlier one.\<close>

definition dict_by :: "('a \<Rightarrow> int) \<Rightarrow> 'a list \<Rightarrow> (int \<rightharpoonup> 'a)" where
  "dict_by key xs = map_of (rev (map (\<lambda>x. (key x, x)) xs))"

text \<open>
  \<^verbatim>\<open>list(set(ids))\<close> is the ids without repetition, in an order that the
  interpreter chooses; the conversion is a parameter of the model, \<open>list_of_set\<close>.
  The ids go to the read calls as they are, so the calls take the values of the
  references.
\<close>

definition fetch_related_data ::
  "(pyid list \<Rightarrow> pyid list) \<Rightarrow> (pyid list \<Rightarrow> partner option rpc)
     \<Rightarrow> (pyid list \<Rightarrow> pos_config option rpc) \<Rightarrow> int
     \<Rightarrow> order option list \<Rightarrow> (int \<rightharpoonup> partner) \<times> (int \<rightharpoonup> pos_config)" where
  "fetch_related_data list_of_set read_partners read_configs read_batch_size orders =
     (let partner_ids = list_of_set (fst (collect_ids orders));
          config_ids = list_of_set (snd (collect_ids orders));
          partners =
            (if partner_ids \<noteq> [] then read_in_batches read_partners read_batch_size partner_ids
             else Some [])
      in case partners of
           None \<Rightarrow> (Map.empty, Map.empty)
         | Some partners \<Rightarrow>
             (case (if config_ids \<noteq> [] then read_configs config_ids else Reply []) of
                Fault \<Rightarrow> (Map.empty, Map.empty)
              | NotList \<Rightarrow>
                  (dict_by p_id
                     (map (\<lambda>p. p\<lparr>p_mobile := format_mobile_number (p_mobile p)\<rparr>) (dicts partners)),
                   Map.empty)
              | Reply configs \<Rightarrow>
                  (dict_by p_id
                     (map (\<lambda>p. p\<lparr>p_mobile := format_mobile_number (p_mobile p)\<rparr>) (dicts partners)),
                   dict_by c_id (dicts configs))))"


section \<open>\<^verbatim>\<open>generate_excel\<close>: the workbook\<close>

text \<open>
  A date is year, month and day, ordered as Python orders dates; a timestamp adds hour,
  minute and second. \<^verbatim>\<open>datetime.strptime(s, "%Y-%m-%d %H:%M:%S")\<close> is a parameter of
  the model: it returns the timestamp, or \<open>None\<close> where the library raises.
\<close>

type_synonym date = "nat \<times> nat \<times> nat"
type_synonym datetime = "date \<times> nat \<times> nat \<times> nat"

definition order_datetime :: "(string \<Rightarrow> datetime option) \<Rightarrow> order \<Rightarrow> datetime option" where
  "order_datetime strptime ord = (case date_order ord of None \<Rightarrow> None | Some s \<Rightarrow> strptime s)"

text \<open>
  What is written into a cell. \<open>CNow\<close> is the time of the run, which the detail sheet
  shows for an order whose timestamp does not parse; \<open>CHeader k\<close> is the \<open>k\<close>-th
  column heading of a sheet. A sheet is the list of its writes, each at a row and a
  column counted from 0 as \<^verbatim>\<open>write\<close> counts them; the title band and the formats
  are left out.
\<close>

datatype cell =
  CStr string | CInt int | CBool bool | CNum real | CDateTime datetime | CNow | CDate date
  | CHeader nat | CFormula string

type_synonym sheet = "((nat \<times> nat) \<times> cell) list"

text \<open>\<^verbatim>\<open>sheet.write_row(row, col, data)\<close>\<close>

definition write_row :: "nat \<Rightarrow> nat \<Rightarrow> cell list \<Rightarrow> sheet" where
  "write_row row col data = map (\<lambda>(i, v). ((row, col + i), v)) (enumerate 0 data)"

text \<open>\<^verbatim>\<open>partner_id or ""\<close>\<close>

fun id_cell :: "pyid \<Rightarrow> cell" where
  "id_cell PNone = CStr []"
| "id_cell (PBool b) = (if b then CBool True else CStr [])"
| "id_cell (PInt i) = (if i \<noteq> 0 then CInt i else CStr [])"

text \<open>
  \<^verbatim>\<open>partner_dict.get(partner_id, {}) if partner_id else {}\<close>, with \<open>None\<close> for the
  empty dictionary, and \<^verbatim>\<open>partner.get('name', '')\<close> on the result.
\<close>

definition dict_get :: "(int \<rightharpoonup> 'a) \<Rightarrow> pyid \<Rightarrow> 'a option" where
  "dict_get d k = (if truthy k then d (key_of k) else None)"

definition get_str :: "('a \<Rightarrow> string) \<Rightarrow> 'a option \<Rightarrow> string" where
  "get_str field r = (case r of None \<Rightarrow> [] | Some x \<Rightarrow> field x)"

subsection \<open>The sheet \<^verbatim>\<open>Order Details\<close>\<close>

definition detail_row ::
  "(string \<Rightarrow> datetime option) \<Rightarrow> (int \<rightharpoonup> partner) \<Rightarrow> (int \<rightharpoonup> pos_config)
     \<Rightarrow> nat \<Rightarrow> order \<Rightarrow> sheet" where
  "detail_row strptime partner_dict config_dict row_num ord =
     (let pid = normalize_ref (partner_id ord);
          partner = dict_get partner_dict pid;
          cid = normalize_ref (config_id ord);
          config = dict_get config_dict cid;
          order_date = (case order_datetime strptime ord of
                          Some dt \<Rightarrow> CDateTime dt | None \<Rightarrow> CNow)
      in [((row_num, 0), order_date),
          ((row_num, 1), CStr (pos_reference ord)),
          ((row_num, 2), CStr (get_str c_name config)),
          ((row_num, 3), id_cell pid),
          ((row_num, 4), CStr (get_str p_name partner)),
          ((row_num, 5), CStr (get_str p_mobile partner)),
          ((row_num, 6), CStr (get_str p_email partner)),
          ((row_num, 7), CNum (amount ord)),
          ((row_num, 8), id_cell cid)])"

text \<open>\<^verbatim>\<open>for row_num, order in enumerate(orders, 4)\<close>: an element that is not a
  dictionary uses up its row number and writes nothing.\<close>

fun detail_rows ::
  "(string \<Rightarrow> datetime option) \<Rightarrow> (int \<rightharpoonup> partner) \<Rightarrow> (int \<rightharpoonup> pos_config)
     \<Rightarrow> nat \<Rightarrow> order option list \<Rightarrow> sheet" where
  "detail_rows strptime partner_dict config_dict row_num [] = []"
| "detail_rows strptime partner_dict config_dict row_num (None # orders) =
     detail_rows strptime partner_dict config_dict (Suc row_num) orders"
| "detail_rows strptime partner_dict config_dict row_num (Some ord # orders) =
     detail_row strptime partner_dict config_dict row_num ord
     @ detail_rows strptime partner_dict config_dict (Suc row_num) orders"

definition order_details_total :: "order option list \<Rightarrow> sheet" where
  "order_details_total orders =
     (let last_row = length orders + 4
      in [((last_row, 6), CStr ''TOTAL:''),
          ((last_row, 7), CFormula (''=SUM('Order Details'!H5:H'' @ str_nat last_row @ '')''))])"

definition order_details_sheet ::
  "(string \<Rightarrow> datetime option) \<Rightarrow> (int \<rightharpoonup> partner) \<Rightarrow> (int \<rightharpoonup> pos_config)
     \<Rightarrow> order option list \<Rightarrow> sheet" where
  "order_details_sheet strptime partner_dict config_dict orders =
     write_row 3 0 (map CHeader [0..<9])
     @ detail_rows strptime partner_dict config_dict 4 orders
     @ order_details_total orders"

subsection \<open>The sheet \<^verbatim>\<open>Customer Summary\<close>\<close>

text \<open>
  A \<^verbatim>\<open>defaultdict\<close> is an association list in the order in which the keys were
  first used; \<open>upsert same k f dflt\<close> is \<^verbatim>\<open>d[k] = f(d[k])\<close>, the entry being made
  from the default when the key is new. An entry keeps the key it was made with. Two
  keys are one key of the dictionary when Python finds them equal, that is, when
  \<open>same\<close> gives one value for both: a customer id by \<open>key_of\<close> (\<^verbatim>\<open>True\<close> is
  1), a date by itself.
\<close>

fun upsert ::
  "('k \<Rightarrow> 'c) \<Rightarrow> 'k \<Rightarrow> ('v \<Rightarrow> 'v) \<Rightarrow> 'v \<Rightarrow> ('k \<times> 'v) list \<Rightarrow> ('k \<times> 'v) list" where
  "upsert same k f dflt [] = [(k, f dflt)]"
| "upsert same k f dflt ((k', v) # kvs) =
     (if same k = same k' then (k', f v) # kvs else (k', v) # upsert same k f dflt kvs)"

record customer_entry =
  cust_name :: string
  cust_mobile :: string
  cust_email :: string
  cust_count :: nat
  cust_total :: real

definition new_customer :: customer_entry where
  "new_customer =
     \<lparr>cust_name = [], cust_mobile = [], cust_email = [], cust_count = 0, cust_total = 0\<rparr>"

text \<open>
  The body of the loop that fills \<^verbatim>\<open>customer_data\<close>; the total starts at
  \<^verbatim>\<open>0.0\<close> and grows by a float addition for each order of the customer.
\<close>

definition customer_step ::
  "float_op \<Rightarrow> (int \<rightharpoonup> partner) \<Rightarrow> (pyid \<times> customer_entry) list \<Rightarrow> order option
     \<Rightarrow> (pyid \<times> customer_entry) list" where
  "customer_step fadd partner_dict customer_data item =
     (case item of
        None \<Rightarrow> customer_data
      | Some ord \<Rightarrow>
          let pid = normalize_ref (partner_id ord);
              partner = dict_get partner_dict pid
          in if truthy pid
             then upsert key_of pid
                    (\<lambda>data. data\<lparr>cust_name := get_str p_name partner,
                                  cust_mobile := get_str p_mobile partner,
                                  cust_email := get_str p_email partner,
                                  cust_count := cust_count data + 1,
                                  cust_total := fadd (cust_total data) (amount ord)\<rparr>)
                    new_customer customer_data
             else customer_data)"

definition customer_data ::
  "float_op \<Rightarrow> (int \<rightharpoonup> partner) \<Rightarrow> order option list \<Rightarrow> (pyid \<times> customer_entry) list" where
  "customer_data fadd partner_dict orders = foldl (customer_step fadd partner_dict) [] orders"

text \<open>\<^verbatim>\<open>data['total'] / data['count'] if data['count'] > 0 else 0\<close>\<close>

definition avg_amount :: "float_op \<Rightarrow> customer_entry \<Rightarrow> real" where
  "avg_amount fdiv data =
     (if cust_count data > 0 then fdiv (cust_total data) (real (cust_count data)) else 0)"

text \<open>
  \<^verbatim>\<open>summary_sheet.write(row_idx, 0, partner_id, center_fmt)\<close>: the key as the
  dictionary holds it. (\<^verbatim>\<open>None\<close>, which is never a key of the table, would leave
  the cell empty.)
\<close>

fun key_cell :: "pyid \<Rightarrow> cell" where
  "key_cell (PInt i) = CInt i"
| "key_cell (PBool b) = CBool b"
| "key_cell PNone = CStr []"

definition summary_row :: "float_op \<Rightarrow> nat \<Rightarrow> pyid \<times> customer_entry \<Rightarrow> sheet" where
  "summary_row fdiv row_idx entry =
     (case entry of (key, data) \<Rightarrow>
        [((row_idx, 0), key_cell key),
         ((row_idx, 1), CStr (cust_name data)),
         ((row_idx, 2), CStr (cust_mobile data)),
         ((row_idx, 3), CStr (cust_email data)),
         ((row_idx, 4), CInt (int (cust_count data))),
         ((row_idx, 5), CNum (cust_total data)),
         ((row_idx, 6), CNum (avg_amount fdiv data))])"

definition customer_summary_total :: "(pyid \<times> customer_entry) list \<Rightarrow> sheet" where
  "customer_summary_total entries =
     (let last_row = length entries + 4
      in [((last_row, 3), CStr ''TOTAL:''),
          ((last_row, 4), CFormula (''=SUM('Customer Summary'!E5:E'' @ str_nat last_row @ '')'')),
          ((last_row, 5), CFormula (''=SUM('Customer Summary'!F5:F'' @ str_nat last_row @ '')''))])"

definition customer_summary_sheet ::
  "float_op \<Rightarrow> float_op \<Rightarrow> (int \<rightharpoonup> partner) \<Rightarrow> order option list \<Rightarrow> sheet" where
  "customer_summary_sheet fadd fdiv partner_dict orders =
     write_row 3 0 (map CHeader [0..<7])
     @ concat (map (\<lambda>(row_idx, entry). summary_row fdiv row_idx entry)
                 (enumerate 4 (customer_data fadd partner_dict orders)))
     @ customer_summary_total (customer_data fadd partner_dict orders)"

subsection \<open>The sheet \<^verbatim>\<open>Sales Analysis\<close>\<close>

record day_entry =
  day_count :: nat
  day_total :: real

definition new_day :: day_entry where
  "new_day = \<lparr>day_count = 0, day_total = 0\<rparr>"

text \<open>The body of the loop that fills \<^verbatim>\<open>date_data\<close>; \<^verbatim>\<open>date_obj.date()\<close> is
  the first component of the timestamp.\<close>

definition date_step ::
  "float_op \<Rightarrow> (string \<Rightarrow> datetime option) \<Rightarrow> (date \<times> day_entry) list \<Rightarrow> order option
     \<Rightarrow> (date \<times> day_entry) list" where
  "date_step fadd strptime date_data item =
     (case item of
        None \<Rightarrow> date_data
      | Some ord \<Rightarrow>
          (case order_datetime strptime ord of
             None \<Rightarrow> date_data
           | Some date_obj \<Rightarrow>
               upsert (\<lambda>date. date) (fst date_obj)
                 (\<lambda>data. data\<lparr>day_count := day_count data + 1,
                               day_total := fadd (day_total data) (amount ord)\<rparr>)
                 new_day date_data))"

definition date_data ::
  "float_op \<Rightarrow> (string \<Rightarrow> datetime option) \<Rightarrow> order option list
     \<Rightarrow> (date \<times> day_entry) list" where
  "date_data fadd strptime orders = foldl (date_step fadd strptime) [] orders"

text \<open>\<^verbatim>\<open>sorted(date_data.keys())\<close>\<close>

definition sorted_dates :: "(date \<times> day_entry) list \<Rightarrow> date list" where
  "sorted_dates entries = sort (map fst entries)"

text \<open>\<^verbatim>\<open>date_data[date]\<close>\<close>

definition day_of :: "(date \<times> day_entry) list \<Rightarrow> date \<Rightarrow> day_entry" where
  "day_of entries date = (case map_of entries date of Some data \<Rightarrow> data | None \<Rightarrow> new_day)"

definition avg_value :: "float_op \<Rightarrow> day_entry \<Rightarrow> real" where
  "avg_value fdiv data =
     (if day_count data > 0 then fdiv (day_total data) (real (day_count data)) else 0)"

text \<open>The rows of the sheet, one for each date in ascending order.\<close>

definition daily_summary ::
  "float_op \<Rightarrow> (string \<Rightarrow> datetime option) \<Rightarrow> order option list
     \<Rightarrow> (date \<times> day_entry) list" where
  "daily_summary fadd strptime orders =
     map (\<lambda>date. (date, day_of (date_data fadd strptime orders) date))
       (sorted_dates (date_data fadd strptime orders))"

definition analysis_row :: "float_op \<Rightarrow> nat \<Rightarrow> date \<times> day_entry \<Rightarrow> sheet" where
  "analysis_row fdiv row_idx entry =
     (case entry of (date, data) \<Rightarrow>
        [((row_idx, 0), CDate date),
         ((row_idx, 1), CInt (int (day_count data))),
         ((row_idx, 2), CNum (day_total data)),
         ((row_idx, 3), CNum (avg_value fdiv data))])"

definition sales_analysis_sheet ::
  "float_op \<Rightarrow> float_op \<Rightarrow> (string \<Rightarrow> datetime option) \<Rightarrow> order option list \<Rightarrow> sheet" where
  "sales_analysis_sheet fadd fdiv strptime orders =
     write_row 3 0 (map CHeader [0..<4])
     @ concat (map (\<lambda>(row_idx, entry). analysis_row fdiv row_idx entry)
                 (enumerate 4 (daily_summary fadd strptime orders)))"

text \<open>
  The chart is added only when there is a date (\<^verbatim>\<open>if sorted_dates:\<close>); its series
  take their categories and values from these ranges.
\<close>

definition chart_ranges :: "date list \<Rightarrow> (string \<times> string) option" where
  "chart_ranges dates =
     (if dates \<noteq> []
      then Some (''='Sales Analysis'!$A$5:$A$'' @ str_nat (length dates + 4),
                 ''='Sales Analysis'!$C$5:$C$'' @ str_nat (length dates + 4))
      else None)"

section \<open>The summary figures of \<^verbatim>\<open>main\<close>\<close>



section \<open>Notions of the specification\<close>

text \<open>
  A keyword is a standalone token of a name when it occurs there with a space, or the
  end of the name, on either side.
\<close>

definition standalone_token :: "string \<Rightarrow> string \<Rightarrow> bool" where
  "standalone_token kw name \<longleftrightarrow>
     (\<exists>pre post. name = pre @ kw @ post
        \<and> (pre = [] \<or> last pre = CHR '' '') \<and> (post = [] \<or> hd post = CHR '' ''))"

text \<open>A name contains a phrase when the phrase is a contiguous piece of it.\<close>

definition contains_phrase :: "string \<Rightarrow> string \<Rightarrow> bool" where
  "contains_phrase phrase name \<longleftrightarrow> (\<exists>u v. name = u @ phrase @ v)"


text \<open>
  A remote search that answers every offset/limit query from one fixed list of ids;
  the list is its argument.
\<close>

definition paged_search :: "int list \<Rightarrow> search" where
  "paged_search all_ids offset limit = Some (take limit (drop offset all_ids))"

text \<open>
  The offsets at which a scan with page size \<open>limit\<close> queries such a search over
  \<open>n_ids\<close> ids: the start of every page, then \<open>n_ids\<close> itself.
\<close>

definition page_starts :: "nat \<Rightarrow> nat \<Rightarrow> nat list" where
  "page_starts limit n_ids = map (\<lambda>k. k * limit) [0..<(n_ids + limit - 1) div limit] @ [n_ids]"


text \<open>The records that the answer to one read call adds to the result.\<close>

fun records :: "'a rpc \<Rightarrow> 'a list" where
  "records (Reply batch) = batch"
| "records NotList = []"
| "records Fault = []"


text \<open>
  A transaction has a resolved customer when its normalised customer reference is
  truthy; otherwise it is a walk-in. Its timestamp is parsable when
  \<^verbatim>\<open>strptime\<close> returns a value for it.
\<close>

definition has_customer :: "order \<Rightarrow> bool" where
  "has_customer ord = truthy (normalize_ref (partner_id ord))"

definition parsable :: "(string \<Rightarrow> datetime option) \<Rightarrow> order \<Rightarrow> bool" where
  "parsable strptime ord = (order_datetime strptime ord \<noteq> None)"







text \<open>
  The spreadsheet counts rows from 1: the row that \<^verbatim>\<open>write\<close> numbers \<open>r\<close> is row
  \<open>r + 1\<close> of the sheet, and a cell reference such as \<^verbatim>\<open>H5\<close> names the column
  and that row. The text of a formula that sums a column of a sheet from one sheet row
  to another:
\<close>

definition sheet_row :: "nat \<Rightarrow> nat" where
  "sheet_row r = r + 1"

definition sum_formula :: "string \<Rightarrow> string \<Rightarrow> nat \<Rightarrow> nat \<Rightarrow> string" where
  "sum_formula sheet_name col first_row last_row =
     ''=SUM('' @ [CHR 0x27] @ sheet_name @ [CHR 0x27] @ ''!''
     @ col @ str_nat first_row @ '':'' @ col @ str_nat last_row @ '')''"

text \<open>The rows, as \<^verbatim>\<open>write\<close> numbers them, in which a list of writes puts cells.\<close>

definition rows_written :: "sheet \<Rightarrow> nat set" where
  "rows_written writes = (\<lambda>w. fst (fst w)) ` set writes"


section \<open>Facts about the string helpers\<close>

lemma startswith_prefix: "startswith s p \<longleftrightarrow> prefix p s"
  by (induction s p rule: startswith.induct) auto

lemma str_in_iff: "str_in p s \<longleftrightarrow> (\<exists>u v. s = u @ p @ v)"
proof (induction s)
  case Nil
  then show ?case by auto
next
  case (Cons c cs)
  show ?case
  proof
    assume "str_in p (c # cs)"
    then consider "prefix p (c # cs)" | "str_in p cs"
      by (auto simp: startswith_prefix)
    then show "\<exists>u v. c # cs = u @ p @ v"
    proof cases
      case 1
      then obtain v where "c # cs = p @ v" by (auto simp: prefix_def)
      then have "c # cs = [] @ p @ v" by simp
      then show ?thesis by blast
    next
      case 2
      with Cons.IH obtain u v where "cs = u @ p @ v" by blast
      then have "c # cs = (c # u) @ p @ v" by simp
      then show ?thesis by blast
    qed
  next
    assume "\<exists>u v. c # cs = u @ p @ v"
    then obtain u v where uv: "c # cs = u @ p @ v" by blast
    show "str_in p (c # cs)"
    proof (cases u)
      case Nil
      with uv have "prefix p (c # cs)" by (simp add: prefix_def)
      then show ?thesis by (simp add: startswith_prefix)
    next
      case (Cons d u')
      with uv have "cs = u' @ p @ v" by simp
      with Cons.IH have "str_in p cs" by blast
      then show ?thesis by simp
    qed
  qed
qed

lemma length_lower [simp]: "length (lower s) = length s"
  by (simp add: lower_def)

lemma lower_Nil [simp]: "lower [] = []"
  by (simp add: lower_def)

lemma lower_Nil_iff [simp]: "lower s = [] \<longleftrightarrow> s = []"
  by (simp add: lower_def)

section \<open>Phone normalisation\<close>

text \<open>
  What the function returns, case by case, with \<open>d\<close> the digits of the input after a
  single leading zero is dropped.
\<close>

lemma format_mobile_number_cases:
  "format_mobile_number mobile =
     (let d = drop_leading_zero (strip_non_digits mobile)
      in if length d = 10 \<and> \<not> prefix ''91'' d then ''+91'' @ d
         else if length d = 12 \<and> prefix ''91'' d then ''+'' @ d
         else mobile)"
proof (cases "mobile = []")
  case True
  have "drop_leading_zero (strip_non_digits []) = []"
    by (simp add: drop_leading_zero_def strip_non_digits_def)
  with True show ?thesis by (simp add: format_mobile_number_def)
next
  case False
  then show ?thesis
    by (auto simp: format_mobile_number_def Let_def startswith_prefix)
qed

text \<open>
  Away from ten digits that begin with \<^verbatim>\<open>91\<close>, the function follows the rule of the
  specification: ten digits get \<^verbatim>\<open>+91\<close>, twelve digits that begin with \<^verbatim>\<open>91\<close> get
  \<^verbatim>\<open>+\<close>, anything else comes back unchanged.
\<close>

lemma format_mobile_number_rule:
  assumes "\<not> (length (drop_leading_zero (strip_non_digits mobile)) = 10
              \<and> prefix ''91'' (drop_leading_zero (strip_non_digits mobile)))"
  shows "format_mobile_number mobile =
     (let d = drop_leading_zero (strip_non_digits mobile)
      in if length d = 10 then ''+91'' @ d
         else if length d = 12 \<and> prefix ''91'' d then ''+'' @ d
         else mobile)"
  using assms unfolding format_mobile_number_cases by (auto simp: Let_def)

lemma format_mobile_number_samples:
  "format_mobile_number ''9876543210'' = ''+919876543210''"
  "format_mobile_number ''09876543210'' = ''+919876543210''"
  "format_mobile_number ''919876543210'' = ''+919876543210''"
  "format_mobile_number ''91 98765-43210'' = ''+919876543210''"
  "format_mobile_number ''12345'' = ''12345''"
  by (simp_all add: format_mobile_number_def drop_leading_zero_def strip_non_digits_def
      is_digit_def)

text \<open>
  C6: whenever ten digits remain after cleaning, the result is \<^verbatim>\<open>+91\<close> followed by
  them. The function, whose comment says that it adds the prefix if it is not already
  present, takes a leading \<^verbatim>\<open>91\<close> of ten digits for the prefix: the input
  \<^verbatim>\<open>9123456789\<close> has ten digits after cleaning and is returned as it is, without
  \<^verbatim>\<open>+91\<close>.
\<close>

theorem C6_ten_digits_starting_91_unchanged:
  "length (drop_leading_zero (strip_non_digits ''9123456789'')) = 10
   \<and> format_mobile_number ''9123456789'' = ''9123456789''
   \<and> format_mobile_number ''9123456789''
       \<noteq> ''+91'' @ drop_leading_zero (strip_non_digits ''9123456789'')"
  by (simp add: format_mobile_number_def drop_leading_zero_def strip_non_digits_def is_digit_def)


section \<open>The terminal filter\<close>

lemma starts_with_sep:
  assumes "hd (u @ [c]) = c"
  shows "\<exists>pre. u @ [c] = c # pre \<and> (pre = [] \<or> last pre = c)"
proof (cases u)
  case Nil
  then show ?thesis by simp
next
  case (Cons a u')
  with assms have "a = c" by simp
  with Cons have "u @ [c] = c # (u' @ [c]) \<and> last (u' @ [c]) = c" by simp
  then show ?thesis by blast
qed

lemma ends_with_sep:
  assumes "last (c # v) = c"
  shows "\<exists>post. c # v = post @ [c] \<and> (post = [] \<or> hd post = c)"
proof (cases v rule: rev_cases)
  case Nil
  then show ?thesis by simp
next
  case (snoc v' x)
  with assms have "x = c" by simp
  with snoc have "c # v = (c # v') @ [c] \<and> hd (c # v') = c" by simp
  then show ?thesis by blast
qed

lemma padded_occurrence:
  "(\<exists>u v. c # name @ [c] = u @ (c # kw @ [c]) @ v) \<longleftrightarrow>
   (\<exists>pre post. name = pre @ kw @ post \<and> (pre = [] \<or> last pre = c) \<and> (post = [] \<or> hd post = c))"
proof
  assume "\<exists>u v. c # name @ [c] = u @ (c # kw @ [c]) @ v"
  then obtain u v where uv: "c # name @ [c] = (u @ [c]) @ kw @ (c # v)" by auto
  have "hd ((u @ [c]) @ kw @ (c # v)) = hd (u @ [c])" by (cases u) simp_all
  with uv have "hd (c # name @ [c]) = hd (u @ [c])" by simp
  then have "hd (u @ [c]) = c" by simp
  from starts_with_sep [OF this] obtain pre
    where pre: "u @ [c] = c # pre" "pre = [] \<or> last pre = c" by blast
  have "last ((u @ [c]) @ kw @ (c # v)) = last (c # v)" by simp
  with uv have "last (c # name @ [c]) = last (c # v)" by simp
  then have "last (c # v) = c" by simp
  from ends_with_sep [OF this] obtain post
    where post: "c # v = post @ [c]" "post = [] \<or> hd post = c" by blast
  from uv pre(1) post(1) have "c # name @ [c] = c # (pre @ kw @ post) @ [c]" by simp
  then have "name = pre @ kw @ post" by simp
  with pre(2) post(2) show "\<exists>pre post. name = pre @ kw @ post
      \<and> (pre = [] \<or> last pre = c) \<and> (post = [] \<or> hd post = c)" by blast
next
  assume "\<exists>pre post. name = pre @ kw @ post
      \<and> (pre = [] \<or> last pre = c) \<and> (post = [] \<or> hd post = c)"
  then obtain pre post where n: "name = pre @ kw @ post"
    and pre: "pre = [] \<or> last pre = c" and post: "post = [] \<or> hd post = c" by blast
  from pre obtain u where u: "c # pre = u @ [c]"
  proof (cases "pre = []")
    case True
    then have "c # pre = [] @ [c]" by simp
    then show ?thesis using that by blast
  next
    case False
    then have "butlast pre @ [last pre] = pre" by simp
    with pre False have "butlast pre @ [c] = pre" by simp
    then have "c # pre = (c # butlast pre) @ [c]" by simp
    then show ?thesis using that by blast
  qed
  from post obtain v where v: "post @ [c] = c # v"
  proof (cases post)
    case Nil
    then show ?thesis using that by simp
  next
    case (Cons a post')
    with post have "post @ [c] = c # (post' @ [c])" by simp
    then show ?thesis using that by blast
  qed
  have "c # name @ [c] = (c # pre) @ kw @ (post @ [c])" by (simp add: n)
  also have "\<dots> = u @ (c # kw @ [c]) @ v" by (simp add: u v)
  finally show "\<exists>u v. c # name @ [c] = u @ (c # kw @ [c]) @ v" by blast
qed

lemma contains_keyword_token:
  "contains_keyword kw name \<longleftrightarrow> standalone_token (lower kw) name"
  unfolding contains_keyword_def standalone_token_def str_in_iff
  using padded_occurrence [of "CHR '' ''" name "lower kw"] by simp

lemma table_keywords_nonempty:
  "(b, kws) \<in> set BRANCH_KEYWORDS \<Longrightarrow> [] \<notin> set kws"
  unfolding BRANCH_KEYWORDS_def by (elim disjE | simp)+

lemma branch_keywords_nonempty:
  assumes "branch_name \<noteq> []" and "kw \<in> set (branch_keywords branch_name)"
  shows "kw \<noteq> []"
proof (cases "map_of BRANCH_KEYWORDS branch_name")
  case None
  with assms show ?thesis by (simp add: branch_keywords_def)
next
  case (Some kws)
  then have "(branch_name, kws) \<in> set BRANCH_KEYWORDS" by (rule map_of_SomeD)
  then have "[] \<notin> set kws" by (rule table_keywords_nonempty)
  moreover from assms(2) Some have "kw \<in> set kws" by (simp add: branch_keywords_def)
  ultimately show ?thesis by blast
qed


lemma contains_phrase_str_in: "contains_phrase phrase name \<longleftrightarrow> str_in phrase name"
  by (simp add: contains_phrase_def str_in_iff)

text \<open>
  C7: for a branch with a non-empty name, a fetched terminal is kept exactly when its
  trimmed, lowercased name starts with a (lowercased) keyword of the branch or has one
  as a standalone token; for the branch \<^verbatim>\<open>Saree Trails\<close> a name that contains
  \<^verbatim>\<open>local expo\<close> is kept exactly when a keyword is a standalone token of it, and
  starting with the keyword is then not enough.
\<close>

theorem C7_config_accepted:
  assumes "branch_name \<noteq> []"
  shows "config_accepted branch_name raw_name \<longleftrightarrow>
     (let name = lower (strip raw_name); kws = map lower (branch_keywords branch_name)
      in if branch_name = ''Saree Trails'' \<and> contains_phrase ''local expo'' name
         then (\<exists>kw \<in> set kws. standalone_token kw name)
         else (\<exists>kw \<in> set kws. prefix kw name \<or> standalone_token kw name))"
proof (cases "lower (strip raw_name) = []")
  case True
  have no_kw: "\<not> prefix (lower kw) [] \<and> \<not> standalone_token (lower kw) []"
    if "kw \<in> set (branch_keywords branch_name)" for kw
    using branch_keywords_nonempty [OF assms that] by (simp add: standalone_token_def)
  from True have "\<not> config_accepted branch_name raw_name"
    by (simp add: config_accepted_def)
  with True no_kw show ?thesis by (auto simp: Let_def)
next
  case False
  then show ?thesis
    by (auto simp: config_accepted_def Let_def list_ex_iff contains_keyword_token
        startswith_prefix str_in_iff contains_phrase_def)
qed

text \<open>
  The keyword \<^verbatim>\<open>TN\<close> inside \<^verbatim>\<open>ANTENNA\<close>: the terminal is rejected, and the
  theorem turns the rejection into the fact that \<^verbatim>\<open>tn\<close> is no standalone token of
  the name.
\<close>

theorem C7_config_accepted_witness:
  "\<not> config_accepted ''TN'' ''ANTENNA''
   \<and> \<not> prefix ''tn'' ''antenna'' \<and> \<not> standalone_token ''tn'' ''antenna''"
proof -
  have rejected: "\<not> config_accepted ''TN'' ''ANTENNA''" by code_simp
  have name: "lower (strip ''ANTENNA'') = ''antenna''" by code_simp
  have kws: "map lower (branch_keywords ''TN'') = [''tn'']" by code_simp
  have branch: "''TN'' \<noteq> []" by simp
  from C7_config_accepted [OF branch, of "''ANTENNA''"] rejected
  show ?thesis unfolding name kws by (simp add: Let_def)
qed

text \<open>Further runs of the filter, the special rule of \<^verbatim>\<open>Saree Trails\<close> among them.\<close>

lemma config_accepted_examples:
  "config_accepted ''TN'' '' Shop TN 2 ''"
  "config_accepted ''CBE'' ''cb counter''"
  "\<not> config_accepted ''Saree Trails'' ''Punelocal expo''"
  "config_accepted ''Saree Trails'' ''Pune counter''"
  "config_accepted ''Saree Trails'' ''Local Expo Pune''"
  "\<not> config_accepted ''Saree Trails'' ''Local Expo Delhi''"
  by code_simp+


section \<open>The id scan\<close>

lemma ceil_pos:
  assumes "0 < (L::nat)" "0 < d"
  shows "(d + L - 1) div L = Suc ((d - 1) div L)"
proof -
  from assms have "d + L - 1 = (d - 1) + L" by arith
  moreover from assms(1) have "((d - 1) + L) div L = Suc ((d - 1) div L)" by simp
  ultimately show ?thesis by (simp only:)
qed

lemma ceil_step:
  assumes "0 < (L::nat)" "L \<le> d"
  shows "(d + L - 1) div L = Suc ((d - L + L - 1) div L)"
proof (cases "d = L")
  case True
  from ceil_pos [OF assms(1) assms(1)] have "(L + L - 1) div L = Suc ((L - 1) div L)" .
  moreover from assms(1) have "(L - 1) div L = 0" by simp
  ultimately show ?thesis using True by simp
next
  case False
  with assms have pos: "0 < d" "0 < d - L" by simp_all
  from assms pos have "d - 1 = (d - L - 1) + L" by arith
  moreover from assms(1) have "((d - L - 1) + L) div L = Suc ((d - L - 1) div L)" by simp
  ultimately have "(d - 1) div L = Suc ((d - L - 1) div L)" by (simp only:)
  with ceil_pos [OF assms(1) pos(1)] ceil_pos [OF assms(1) pos(2)] show ?thesis by (simp only:)
qed

lemma ceil_short:
  assumes "0 < (d::nat)" "d < L"
  shows "(d + L - 1) div L = 1"
proof -
  from assms have "0 < L" by simp
  from ceil_pos [OF this assms(1)] assms show ?thesis by simp
qed

lemma scan_paged:
  assumes "0 < L"
  shows "off \<le> length xs \<Longrightarrow>
    scan_loop (paged_search xs) L acc off calls =
      Some (Some (acc @ drop off xs),
            calls @ map (\<lambda>k. off + k * L) [0..<(length xs - off + L - 1) div L] @ [length xs])"
proof (induction "length xs - off" arbitrary: off acc calls rule: less_induct)
  case less
  show ?case
  proof (cases "off = length xs")
    case True
    with assms show ?thesis
      by (subst scan_loop.simps) (simp add: paged_search_def)
  next
    case False
    with less.prems have lt: "off < length xs" by simp
    define d where "d = length xs - off"
    define m where "m = min L d"
    have m_pos: "0 < m" using assms lt by (simp add: m_def d_def)
    have page: "paged_search xs off L = Some (take L (drop off xs))"
      by (simp add: paged_search_def)
    have len: "length (take L (drop off xs)) = m" by (simp add: m_def d_def)
    have nonempty: "take L (drop off xs) \<noteq> []" using len m_pos by auto
    have le: "off + m \<le> length xs" using lt by (simp add: m_def d_def)
    have dec: "length xs - (off + m) < length xs - off" using m_pos lt by simp
    have step: "scan_loop (paged_search xs) L acc off calls =
        scan_loop (paged_search xs) L (acc @ take L (drop off xs)) (off + m) (calls @ [off])"
      using assms lt by (subst scan_loop.simps) (simp add: page m_def d_def min.commute)
    have rest: "drop L (drop off xs) = drop (off + m) xs"
    proof (cases "L \<le> d")
      case True
      then have "m = L" by (simp add: m_def)
      then show ?thesis by (simp add: add.commute)
    next
      case False
      then have "m = d" by (simp add: m_def)
      with False show ?thesis by (simp add: d_def)
    qed
    have "take L (drop off xs) @ drop L (drop off xs) = drop off xs"
      by (rule append_take_drop_id)
    then have ids: "(acc @ take L (drop off xs)) @ drop (off + m) xs = acc @ drop off xs"
      unfolding rest by (simp only: append_assoc)
    have offs: "[off] @ map (\<lambda>k. off + m + k * L) [0..<(length xs - (off + m) + L - 1) div L]
          = map (\<lambda>k. off + k * L) [0..<(length xs - off + L - 1) div L]"
    proof (cases "L \<le> d")
      case True
      then have mL: "m = L" by (simp add: m_def)
      have "(d + L - 1) div L = Suc ((d - L + L - 1) div L)"
        using ceil_step [OF assms True] .
      moreover have "length xs - (off + m) = d - L" by (simp add: mL d_def)
      ultimately show ?thesis
        by (simp add: d_def [symmetric] mL map_upt_Suc del: upt_Suc add: add.assoc)
    next
      case False
      then have md: "m = d" by (simp add: m_def)
      have d_pos: "0 < d" using lt by (simp add: d_def)
      have "(d + L - 1) div L = 1" using ceil_short [OF d_pos] False by simp
      moreover have "length xs - (off + m) = 0" by (simp add: md d_def)
      ultimately show ?thesis using assms by (simp add: d_def [symmetric])
    qed
    have tr: "(calls @ [off]) @ map (\<lambda>k. off + m + k * L) [0..<(length xs - (off + m) + L - 1) div L]
          @ [length xs]
        = calls @ map (\<lambda>k. off + k * L) [0..<(length xs - off + L - 1) div L] @ [length xs]"
      unfolding offs [symmetric] by (simp only: append_assoc)
    have "scan_loop (paged_search xs) L acc off calls =
        Some (Some ((acc @ take L (drop off xs)) @ drop (off + m) xs),
              (calls @ [off]) @ map (\<lambda>k. off + m + k * L) [0..<(length xs - (off + m) + L - 1) div L]
                @ [length xs])"
      unfolding step by (rule less.hyps [OF dec le])
    then show ?thesis unfolding ids tr .
  qed
qed


lemma scan_paged_from_start:
  assumes "0 < L"
  shows "scan_loop (paged_search xs) L [] 0 [] = Some (Some xs, page_starts L (length xs))"
  using scan_paged [OF assms, of 0 xs "[]" "[]"] by (simp add: page_starts_def)

lemma page_start_lt:
  assumes "0 < (L::nat)" "k < (n + L - 1) div L"
  shows "k * L < n"
proof -
  from assms(2) have "Suc k \<le> (n + L - 1) div L" by simp
  then have "Suc k * L \<le> ((n + L - 1) div L) * L" by (rule mult_le_mono1)
  also have "\<dots> \<le> n + L - 1" by (rule div_times_less_eq_dividend)
  finally have "k * L + L \<le> n + L - 1" by simp
  with assms(1) show ?thesis by arith
qed

lemma page_starts_increasing:
  assumes "0 < L"
  shows "sorted_wrt (<) (page_starts L n)"
proof -
  have "sorted_wrt (<) (map (\<lambda>k. k * L) [0..<(n + L - 1) div L])"
    using assms by (simp add: sorted_wrt_map)
  moreover have "\<forall>x \<in> set (map (\<lambda>k. k * L) [0..<(n + L - 1) div L]). x < n"
    using page_start_lt [OF assms] by auto
  ultimately show ?thesis by (simp add: page_starts_def sorted_wrt_append)
qed

text \<open>
  C3: against a search that answers offset/limit queries from one fixed id list, and
  with a positive page size, the scan returns: its result is that very list (every id,
  once, in order), whatever its length, and the offsets it queries increase strictly,
  so no stretch of the list is asked for twice.
\<close>

theorem C3_scan_drains:
  assumes "0 < order_batch_size"
  shows "fetch_order_ids (paged_search all_ids) order_batch_size = Some all_ids
    \<and> (\<exists>calls. search_calls (paged_search all_ids) order_batch_size = Some calls
          \<and> sorted_wrt (<) calls)"
  using scan_paged_from_start [OF assms, of all_ids] page_starts_increasing [OF assms]
  by (simp add: fetch_order_ids_def search_calls_def)

text \<open>Page size 3 with 0, 2, 3 (one exact page) and 7 ids.\<close>

theorem C3_scan_drains_witness:
  "fetch_order_ids (paged_search []) 3 = Some []
   \<and> fetch_order_ids (paged_search [11, 12]) 3 = Some [11, 12]
   \<and> fetch_order_ids (paged_search [11, 12, 13]) 3 = Some [11, 12, 13]
   \<and> fetch_order_ids (paged_search [11, 12, 13, 14, 15, 16, 17]) 3
        = Some [11, 12, 13, 14, 15, 16, 17]"
proof -
  have pos: "0 < (3::nat)" by simp
  from C3_scan_drains [OF pos, of "[]"] C3_scan_drains [OF pos, of "[11, 12]"]
    C3_scan_drains [OF pos, of "[11, 12, 13]"]
    C3_scan_drains [OF pos, of "[11, 12, 13, 14, 15, 16, 17]"]
  show ?thesis by blast
qed

text \<open>
  C4 (as stated): no search call follows a short page. With one id and page size 2 the
  first page is short (one id), and a second call, at offset 1, follows it.
\<close>

theorem C4_short_page_counterexample:
  "paged_search [7] 0 2 = Some [7] \<and> length [7::int] < 2
   \<and> search_calls (paged_search [7]) 2 = Some [0, 1]"
proof -
  have "scan_loop (paged_search [7]) 2 [] 0 [] = Some (Some [7], page_starts 2 (length [7::int]))"
    by (rule scan_paged_from_start) simp
  moreover have "page_starts 2 (length [7::int]) = [0, 1]"
    by (simp add: page_starts_def)
  ultimately show ?thesis by (simp add: search_calls_def paged_search_def)
qed

text \<open>
  C4 (amended): the scan stops at the first empty page and at nothing else. Against a
  search over a fixed list of \<open>n\<close> ids, with a positive page size, it queries the
  start of every page and then the offset \<open>n\<close>; the last call is answered by the
  empty page and every call before it by a non-empty one, short or not.
\<close>

theorem C4_stops_on_empty_page:
  assumes "0 < L"
  shows "search_calls (paged_search xs) L = Some (page_starts L (length xs))
    \<and> paged_search xs (last (page_starts L (length xs))) L = Some []
    \<and> (\<forall>off \<in> set (butlast (page_starts L (length xs))). paged_search xs off L \<noteq> Some [])"
proof -
  have calls: "search_calls (paged_search xs) L = Some (page_starts L (length xs))"
    using scan_paged_from_start [OF assms, of xs] by (simp add: search_calls_def)
  have final: "paged_search xs (last (page_starts L (length xs))) L = Some []"
    by (simp add: page_starts_def paged_search_def)
  have earlier: "paged_search xs off L \<noteq> Some []"
    if "off \<in> set (butlast (page_starts L (length xs)))" for off
  proof -
    from that obtain k where "k < (length xs + L - 1) div L" "off = k * L"
      by (auto simp: page_starts_def)
    with page_start_lt [OF assms] have "off < length xs" by blast
    with assms show ?thesis by (simp add: paged_search_def)
  qed
  from calls final earlier show ?thesis by blast
qed

text \<open>
  Page size 2: five ids end in the short page \<^verbatim>\<open>[15]\<close> and one more call, four ids
  in a full page and one more call.
\<close>

theorem C4_stops_on_empty_page_witness:
  "search_calls (paged_search [11, 12, 13, 14, 15]) 2 = Some [0, 2, 4, 5]
   \<and> search_calls (paged_search [11, 12, 13, 14]) 2 = Some [0, 2, 4]
   \<and> paged_search [11, 12, 13, 14, 15] 4 2 = Some [15]
   \<and> paged_search [11, 12, 13, 14, 15] 5 2 = Some []"
proof -
  have pos: "0 < (2::nat)" by simp
  have a: "page_starts 2 (length [11, 12, 13, 14, 15 :: int]) = [0, 2, 4, 5]"
    by (simp add: page_starts_def upt_rec)
  have b: "page_starts 2 (length [11, 12, 13, 14 :: int]) = [0, 2, 4]"
    by (simp add: page_starts_def upt_rec)
  from C4_stops_on_empty_page [OF pos, of "[11, 12, 13, 14, 15]"]
    C4_stops_on_empty_page [OF pos, of "[11, 12, 13, 14]"]
  show ?thesis unfolding a b by (simp add: paged_search_def)
qed


subsection \<open>Any search\<close>

lemma scan_loop_trace:
  assumes "scan_loop search L acc off calls = Some y"
  shows "\<exists>offs. snd y = calls @ offs @ [last (snd y)]
      \<and> (\<forall>off' \<in> set offs. \<exists>batch. search off' L = Some batch \<and> batch \<noteq> [])
      \<and> (case fst y of None \<Rightarrow> search (last (snd y)) L = None
            | Some ids \<Rightarrow> search (last (snd y)) L = Some [])"
  using assms
proof (induction rule: scan_loop.raw_induct [rotated 1, consumes 1, case_names step])
  case (step scan search L acc off calls y)
  show ?case
  proof (cases "search off L")
    case None
    with step(2) have "y = (None, calls @ [off])" by simp
    with None have "snd y = calls @ [] @ [last (snd y)]" "fst y = None"
      "search (last (snd y)) L = None"
      by simp_all
    then show ?thesis by fastforce
  next
    case (Some batch)
    show ?thesis
    proof (cases "batch = []")
      case True
      with Some step(2) have "y = (Some acc, calls @ [off])" by simp
      with Some True have "snd y = calls @ [] @ [last (snd y)]" "fst y = Some acc"
        "search (last (snd y)) L = Some []"
        by simp_all
      then show ?thesis by fastforce
    next
      case False
      with Some step(2) have "scan search L (acc @ batch) (off + length batch) (calls @ [off])
          = Some y" by simp
      from step(1) [OF this] obtain offs where
        offs: "snd y = (calls @ [off]) @ offs @ [last (snd y)]"
        "\<forall>off' \<in> set offs. \<exists>batch. search off' L = Some batch \<and> batch \<noteq> []"
        "case fst y of None \<Rightarrow> search (last (snd y)) L = None
            | Some ids \<Rightarrow> search (last (snd y)) L = Some []"
        by blast
      from offs(1) have "snd y = calls @ (off # offs) @ [last (snd y)]" by simp
      moreover from offs(2) Some False
      have "\<forall>off' \<in> set (off # offs). \<exists>batch. search off' L = Some batch \<and> batch \<noteq> []"
        by simp
      ultimately show ?thesis using offs(3) by blast
    qed
  qed
qed

text \<open>
  Whatever the search answers, as long as it does not raise: when the scan ends, its last call
  was answered by the empty page and every call before it by a non-empty page.
\<close>

lemma scan_stops_at_first_empty_page:
  assumes "search_calls search L = Some calls" and "\<forall>off. search off L \<noteq> None"
  shows "calls \<noteq> [] \<and> search (last calls) L = Some []
    \<and> (\<forall>off \<in> set (butlast calls). \<exists>batch. search off L = Some batch \<and> batch \<noteq> [])"
proof -
  from assms(1) obtain y where y: "scan_loop search L [] 0 [] = Some y" "snd y = calls"
    by (auto simp: search_calls_def)
  from scan_loop_trace [OF y(1)] y(2) obtain offs where
    offs: "calls = offs @ [last calls]"
    "\<forall>off' \<in> set offs. \<exists>batch. search off' L = Some batch \<and> batch \<noteq> []"
    "case fst y of None \<Rightarrow> search (last calls) L = None
        | Some ids \<Rightarrow> search (last calls) L = Some []"
    by auto
  from offs(1) have ne: "calls \<noteq> []" by (metis snoc_eq_iff_butlast)
  from offs(1) have "butlast calls = offs" by (metis butlast_snoc)
  with offs(2) have early: "\<forall>off \<in> set (butlast calls). \<exists>batch. search off L = Some batch \<and> batch \<noteq> []"
    by simp
  from offs(3) assms(2) have "search (last calls) L = Some []"
    by (cases "fst y") auto
  with ne early show ?thesis by blast
qed


section \<open>The record read\<close>

lemma chunks_concat: "0 < n \<Longrightarrow> concat (chunks n ids) = ids"
proof (induction n ids rule: chunks.induct)
  case (1 n ids)
  then show ?case by (subst chunks.simps) auto
qed

lemma read_batches_result:
  "read_batches read batches acc =
     (if \<exists>batch_ids \<in> set batches. read batch_ids = Fault then None
      else Some (acc @ concat (map (\<lambda>batch_ids. records (read batch_ids)) batches)))"
proof (induction batches arbitrary: acc)
  case Nil
  then show ?case by simp
next
  case (Cons b batches)
  show ?case by (cases "read b") (simp_all add: Cons.IH)
qed

text \<open>
  C5 (as stated): when the read of one chunk fails, the records of the chunks read
  before it are still returned. With batch size 2 and ids 1, 2, 3 the first chunk is
  read and the read of the second raises: the function returns the empty list.
\<close>

theorem C5_failed_chunk_counterexample:
  "(\<lambda>batch_ids. if batch_ids = [1, 2]
        then Reply [Some \<lparr>partner_id = ROther, config_id = ROther, amount_total = Some 100,
                          date_order = None, pos_reference = ''A''\<rparr>]
        else Fault) [1, 2] \<noteq> Fault
   \<and> chunks 2 [1, 2, 3 :: int] = [[1, 2], [3]]
   \<and> fetch_order_details
       (\<lambda>batch_ids. if batch_ids = [1, 2]
          then Reply [Some \<lparr>partner_id = ROther, config_id = ROther, amount_total = Some 100,
                            date_order = None, pos_reference = ''A''\<rparr>]
          else Fault) 2 [1, 2, 3] = []"
proof -
  have c: "chunks 2 [1, 2, 3 :: int] = [[1, 2], [3]]"
    by (simp add: chunks.simps)
  show ?thesis
    by (simp add: c fetch_order_details_def read_in_batches_def)
qed

text \<open>
  C5 (amended): with a positive batch size, when the read of any chunk raises the
  function returns the empty list, whatever was read before; when no read raises it
  returns the records of all chunks in order, a chunk whose answer is empty or not a
  list adding nothing and leaving the others untouched.
\<close>

theorem C5_fetch_order_details:
  assumes "0 < read_batch_size"
  shows "fetch_order_details read read_batch_size order_ids =
     (if \<exists>batch_ids \<in> set (chunks (nat read_batch_size) order_ids). read batch_ids = Fault
      then []
      else concat (map (\<lambda>batch_ids. records (read batch_ids))
                     (chunks (nat read_batch_size) order_ids)))"
  using assms by (simp add: fetch_order_details_def read_in_batches_def read_batches_result)

text \<open>
  Five ids in chunks of two; the answer for the middle chunk is not a list, and the
  records of the first and the last chunk are returned.
\<close>

theorem C5_fetch_order_details_witness:
  "fetch_order_details
     (\<lambda>batch_ids. if batch_ids = [3, 4] then NotList
        else Reply (map (\<lambda>i. Some \<lparr>partner_id = RInt i, config_id = ROther,
               amount_total = None, date_order = None, pos_reference = []\<rparr>) batch_ids))
     2 [1, 2, 3, 4, 5]
   = [Some \<lparr>partner_id = RInt 1, config_id = ROther, amount_total = None, date_order = None,
            pos_reference = []\<rparr>,
      Some \<lparr>partner_id = RInt 2, config_id = ROther, amount_total = None, date_order = None,
            pos_reference = []\<rparr>,
      Some \<lparr>partner_id = RInt 5, config_id = ROther, amount_total = None, date_order = None,
            pos_reference = []\<rparr>]"
proof -
  have pos: "0 < (2::int)" by simp
  have c: "chunks (nat 2) [1, 2, 3, 4, 5 :: int] = [[1, 2], [3, 4], [5]]"
    by (simp add: chunks.simps)
  show ?thesis unfolding C5_fetch_order_details [OF pos] c by simp
qed


section \<open>The customer table\<close>

lemma upsert_keys:
  "map fst (upsert same k f dflt kvs)
     = (if same k \<in> same ` fst ` set kvs then map fst kvs else map fst kvs @ [k])"
  by (induction kvs) (force split: if_splits)+

lemma upsert_same_keys:
  "same ` fst ` set (upsert same k f dflt kvs) = insert (same k) (same ` fst ` set kvs)"
proof -
  have "set (map fst (upsert same k f dflt kvs))
      = (if same k \<in> same ` fst ` set kvs then fst ` set kvs else insert k (fst ` set kvs))"
    unfolding upsert_keys by auto
  then have "fst ` set (upsert same k f dflt kvs)
      = (if same k \<in> same ` fst ` set kvs then fst ` set kvs else insert k (fst ` set kvs))"
    by simp
  then show ?thesis by (auto split: if_splits)
qed

lemma upsert_distinct:
  assumes "distinct (map (\<lambda>e. same (fst e)) kvs)"
  shows "distinct (map (\<lambda>e. same (fst e)) (upsert same k f dflt kvs))"
proof -
  have eq: "map (\<lambda>e. same (fst e)) (upsert same k f dflt kvs)
      = map same (map fst (upsert same k f dflt kvs))"
    by simp
  from assms have "distinct (map same (map fst kvs))" by (simp add: comp_def)
  then have "distinct (map same (map fst (upsert same k f dflt kvs)))"
    unfolding upsert_keys by (auto simp: image_iff)
  then show ?thesis unfolding eq .
qed

lemma upsert_sum:
  fixes g :: "'v \<Rightarrow> 'n::comm_monoid_add"
  assumes "\<And>k0 v. (k0, v) \<in> set kvs \<Longrightarrow> g (f v) = g v + c" and "g (f dflt) = c"
  shows "sum_list (map (\<lambda>e. g (snd e)) (upsert same k f dflt kvs))
       = sum_list (map (\<lambda>e. g (snd e)) kvs) + c"
  using assms
proof (induction kvs)
  case Nil
  then show ?case by simp
next
  case (Cons kv kvs)
  obtain k0 v where kv: "kv = (k0, v)" by (cases kv)
  have here: "g (f v) = g v + c" using Cons.prems(1) [of k0 v] by (simp add: kv)
  have rest: "sum_list (map (\<lambda>e. g (snd e)) (upsert same k f dflt kvs))
       = sum_list (map (\<lambda>e. g (snd e)) kvs) + c"
    using Cons.prems by (intro Cons.IH) auto
  show ?case by (simp add: kv here rest ac_simps)
qed

lemma upsert_all:
  assumes "(k', v') \<in> set (upsert same k f dflt kvs)"
    and "\<And>k0 v. (k0, v) \<in> set kvs \<Longrightarrow> Q k0 v"
    and "\<And>k0 v. (k0, v) \<in> set kvs \<Longrightarrow> Q k0 (f v)"
    and "Q k (f dflt)"
  shows "Q k' v'"
  using assms by (induction kvs) (auto split: if_splits)

lemma dicts_simps [simp]:
  "dicts [] = []"
  "dicts (None # items) = dicts items"
  "dicts (Some d # items) = d # dicts items"
  "dicts (xs @ ys) = dicts xs @ dicts ys"
  by (simp_all add: dicts_def)

lemma dicts_Cons: "dicts (item # items) = dicts [item] @ dicts items"
  by (cases item) simp_all

lemma dicts_all: "None \<notin> set items \<Longrightarrow> map Some (dicts items) = items"
proof (induction items)
  case Nil
  then show ?case by simp
next
  case (Cons item items)
  then show ?case by (cases item) simp_all
qed


subsection \<open>Totals where the additions are exact\<close>













subsection \<open>The entries of the table\<close>

lemma customer_step_entries:
  assumes mem: "(k, d) \<in> set (customer_step fadd pd acc item)"
    and inv: "\<And>k d. (k, d) \<in> set acc \<Longrightarrow> 0 < cust_count d \<and> k \<in> S"
    and ids: "\<And>ord. ord \<in> set (dicts [item]) \<Longrightarrow> has_customer ord
                \<Longrightarrow> normalize_ref (partner_id ord) \<in> S"
  shows "0 < cust_count d \<and> k \<in> S"
proof (cases item)
  case None
  with mem inv show ?thesis by (simp add: customer_step_def)
next
  case (Some ord)
  show ?thesis
  proof (cases "has_customer ord")
    case True
    define f :: "customer_entry \<Rightarrow> customer_entry"
      where "f = (\<lambda>data. data\<lparr>cust_name := get_str p_name (dict_get pd (normalize_ref (partner_id ord))),
            cust_mobile := get_str p_mobile (dict_get pd (normalize_ref (partner_id ord))),
            cust_email := get_str p_email (dict_get pd (normalize_ref (partner_id ord))),
            cust_count := cust_count data + 1,
            cust_total := fadd (cust_total data) (amount ord)\<rparr>)"
    from mem Some True
    have "(k, d) \<in> set (upsert key_of (normalize_ref (partner_id ord)) f new_customer acc)"
      by (simp add: customer_step_def has_customer_def Let_def f_def)
    then show ?thesis
    proof (rule upsert_all [where Q = "\<lambda>k d. 0 < cust_count d \<and> k \<in> S"])
      fix k0 v assume kv: "(k0, v) \<in> set acc"
      from inv [OF kv] show "0 < cust_count v \<and> k0 \<in> S" .
      from inv [OF kv] show "0 < cust_count (f v) \<and> k0 \<in> S" by (simp add: f_def)
    next
      from ids [of ord] Some True
      show "0 < cust_count (f new_customer) \<and> normalize_ref (partner_id ord) \<in> S"
        by (simp add: f_def)
    qed
  next
    case False
    with mem inv Some show ?thesis by (simp add: customer_step_def has_customer_def Let_def)
  qed
qed

lemma customer_fold_entries:
  assumes "(k, d) \<in> set (foldl (customer_step fadd pd) acc orders)"
    and "\<And>k d. (k, d) \<in> set acc \<Longrightarrow> 0 < cust_count d \<and> k \<in> S"
    and "\<And>ord. ord \<in> set (dicts orders) \<Longrightarrow> has_customer ord
                \<Longrightarrow> normalize_ref (partner_id ord) \<in> S"
  shows "0 < cust_count d \<and> k \<in> S"
  using assms
proof (induction orders arbitrary: acc)
  case Nil
  then show ?case by simp
next
  case (Cons item orders)
  have split: "dicts (item # orders) = dicts [item] @ dicts orders" by (rule dicts_Cons)
  from Cons.prems(1)
  have "(k, d) \<in> set (foldl (customer_step fadd pd) (customer_step fadd pd acc item) orders)"
    by simp
  then show ?case
  proof (rule Cons.IH)
    fix k' d'
    assume "(k', d') \<in> set (customer_step fadd pd acc item)"
    then show "0 < cust_count d' \<and> k' \<in> S"
    proof (rule customer_step_entries)
      fix k d assume "(k, d) \<in> set acc"
      then show "0 < cust_count d \<and> k \<in> S" by (rule Cons.prems(2))
    next
      fix ord assume "ord \<in> set (dicts [item])" "has_customer ord"
      then show "normalize_ref (partner_id ord) \<in> S"
        using Cons.prems(3) [of ord] unfolding split by simp
    qed
  next
    fix ord assume "ord \<in> set (dicts orders)" "has_customer ord"
    then show "normalize_ref (partner_id ord) \<in> S"
      using Cons.prems(3) [of ord] unfolding split by simp
  qed
qed

text \<open>
  C9: every entry of the customer table has a positive order count, so its average is
  the quotient of the total by the count and never the value of the guard, and its key
  is the customer id of a transaction that has a resolved customer.
\<close>

theorem C9_order_count_positive:
  "\<forall>(key, data) \<in> set (customer_data fadd pd orders).
      0 < cust_count data
      \<and> avg_amount fdiv data = fdiv (cust_total data) (real (cust_count data))
      \<and> (\<exists>ord \<in> set (dicts orders).
            has_customer ord \<and> normalize_ref (partner_id ord) = key)"
proof (clarify, intro conjI)
  fix key data
  assume mem: "(key, data) \<in> set (customer_data fadd pd orders)"
  let ?S = "{normalize_ref (partner_id ord) |ord. ord \<in> set (dicts orders) \<and> has_customer ord}"
  from mem have both: "0 < cust_count data \<and> key \<in> ?S"
    unfolding customer_data_def by (rule customer_fold_entries) auto
  then show "0 < cust_count data" ..
  then show "avg_amount fdiv data = fdiv (cust_total data) (real (cust_count data))"
    by (simp add: avg_amount_def)
  from both show "\<exists>ord \<in> set (dicts orders).
      has_customer ord \<and> normalize_ref (partner_id ord) = key"
    by auto
qed

text \<open>
  Two orders of customer 7 and a walk-in, with the arithmetic of the real numbers: one
  entry, with count 2, total 250 and average 125.
\<close>

theorem C9_order_count_positive_witness:
  "customer_data (+) Map.empty
     [Some \<lparr>partner_id = RList (PInt 7), config_id = ROther, amount_total = Some 100,
             date_order = None, pos_reference = []\<rparr>,
      Some \<lparr>partner_id = RInt 7, config_id = ROther, amount_total = Some 150,
             date_order = None, pos_reference = []\<rparr>,
      Some \<lparr>partner_id = RBool False, config_id = ROther, amount_total = Some 50,
             date_order = None, pos_reference = []\<rparr>]
   = [(PInt 7, \<lparr>cust_name = [], cust_mobile = [], cust_email = [], cust_count = 2,
                 cust_total = 250\<rparr>)]
   \<and> avg_amount (/) \<lparr>cust_name = [], cust_mobile = [], cust_email = [], cust_count = 2,
                   cust_total = 250\<rparr> = 125"
proof -
  let ?orders = "[Some \<lparr>partner_id = RList (PInt 7), config_id = ROther, amount_total = Some 100,
             date_order = None, pos_reference = []\<rparr>,
      Some \<lparr>partner_id = RInt 7, config_id = ROther, amount_total = Some 150,
             date_order = None, pos_reference = []\<rparr>,
      Some \<lparr>partner_id = RBool False, config_id = ROther, amount_total = Some 50,
             date_order = None, pos_reference = []\<rparr>]"
  have table: "customer_data (+) Map.empty ?orders
    = [(PInt 7, \<lparr>cust_name = [], cust_mobile = [], cust_email = [], cust_count = 2,
                  cust_total = 250\<rparr>)]"
    by (simp add: customer_data_def customer_step_def dict_get_def get_str_def new_customer_def
        amount_def)
  from C9_order_count_positive [of "(+)" Map.empty ?orders "(/)"] show ?thesis
    unfolding table by simp
qed


section \<open>The daily table\<close>

lemma date_step_count:
  "sum_list (map (\<lambda>e. day_count (snd e)) (date_step fadd sp acc item))
     = sum_list (map (\<lambda>e. day_count (snd e)) acc) + length (filter (parsable sp) (dicts [item]))"
proof (cases item)
  case None
  then show ?thesis by (simp add: date_step_def)
next
  case (Some ord)
  show ?thesis
  proof (cases "order_datetime sp ord")
    case None
    with Some show ?thesis by (simp add: date_step_def parsable_def)
  next
    case (Some date_obj)
    with \<open>item = Some ord\<close> show ?thesis
      by (simp add: date_step_def parsable_def new_day_def
          upsert_sum [where g = day_count and c = 1])
  qed
qed

lemma date_fold_count:
  "sum_list (map (\<lambda>e. day_count (snd e)) (foldl (date_step fadd sp) acc orders))
     = sum_list (map (\<lambda>e. day_count (snd e)) acc) + length (filter (parsable sp) (dicts orders))"
proof (induction orders arbitrary: acc)
  case Nil
  then show ?case by simp
next
  case (Cons item orders)
  have "dicts (item # orders) = dicts [item] @ dicts orders" by (cases item) simp_all
  then show ?case by (simp add: Cons.IH date_step_count del: dicts_simps)
qed

lemma date_step_distinct:
  "distinct (map fst acc) \<Longrightarrow> distinct (map fst (date_step fadd sp acc item))"
  using upsert_distinct [where same = "\<lambda>date. date"]
  by (auto simp: date_step_def split: option.splits)

lemma date_fold_distinct:
  "distinct (map fst acc) \<Longrightarrow> distinct (map fst (foldl (date_step fadd sp) acc orders))"
  by (induction orders arbitrary: acc) (simp_all add: date_step_distinct)

lemma date_data_distinct: "distinct (map fst (date_data fadd sp orders))"
  unfolding date_data_def by (rule date_fold_distinct) simp

lemma date_step_keys:
  "fst ` set (date_step fadd sp acc item)
     = fst ` set acc \<union> (\<lambda>ord. fst (the (order_datetime sp ord)))
         ` {ord \<in> set (dicts [item]). parsable sp ord}"
  by (cases item) (auto simp: date_step_def parsable_def upsert_same_keys [where same = "\<lambda>date. date", simplified] split: option.splits)

lemma date_fold_keys:
  "fst ` set (foldl (date_step fadd sp) acc orders)
     = fst ` set acc \<union> (\<lambda>ord. fst (the (order_datetime sp ord)))
         ` {ord \<in> set (dicts orders). parsable sp ord}"
proof (induction orders arbitrary: acc)
  case Nil
  then show ?case by simp
next
  case (Cons item orders)
  have "dicts (item # orders) = dicts [item] @ dicts orders" by (cases item) simp_all
  then show ?case
    unfolding foldl_Cons Cons.IH date_step_keys by (auto simp del: dicts_simps)
qed

lemma day_of_keys:
  "distinct (map fst kvs) \<Longrightarrow> map (day_of kvs) (map fst kvs) = map snd kvs"
proof (induction kvs)
  case Nil
  then show ?case by simp
next
  case (Cons kv kvs)
  obtain k v where kv: "kv = (k, v)" by (cases kv)
  from Cons.prems kv have notin: "k \<notin> fst ` set kvs" and dist: "distinct (map fst kvs)"
    by simp_all
  have "map (day_of (kv # kvs)) (map fst kvs) = map (day_of kvs) (map fst kvs)"
  proof (rule map_cong [OF refl])
    fix k' assume "k' \<in> set (map fst kvs)"
    with notin have "k' \<noteq> k" by auto
    then show "day_of (kv # kvs) k' = day_of kvs k'" by (simp add: day_of_def kv)
  qed
  with Cons.IH [OF dist] show ?case by (simp add: kv day_of_def)
qed

lemma daily_summary_dates:
  "map fst (daily_summary fadd sp orders) = sort (map fst (date_data fadd sp orders))"
  by (simp add: daily_summary_def sorted_dates_def comp_def)

lemma daily_summary_counts:
  "sum_list (map (\<lambda>e. day_count (snd e)) (daily_summary fadd sp orders))
     = sum_list (map (\<lambda>e. day_count (snd e)) (date_data fadd sp orders))"
proof -
  let ?dd = "date_data fadd sp orders"
  let ?h = "\<lambda>d. day_count (day_of ?dd d)"
  have dist: "distinct (map fst ?dd)" by (rule date_data_distinct)
  have "sum_list (map (\<lambda>e. day_count (snd e)) (daily_summary fadd sp orders))
      = sum_list (map ?h (sort (map fst ?dd)))"
    by (simp add: daily_summary_def sorted_dates_def comp_def)
  also have "\<dots> = sum ?h (set (sort (map fst ?dd)))"
    using dist by (intro sum_list_distinct_conv_sum_set) simp
  also have "\<dots> = sum ?h (set (map fst ?dd))" by simp
  also have "\<dots> = sum_list (map ?h (map fst ?dd))"
    using dist by (rule sum_list_distinct_conv_sum_set [symmetric])
  also have "map ?h (map fst ?dd) = map day_count (map (day_of ?dd) (map fst ?dd))"
    by simp
  also have "\<dots> = map day_count (map snd ?dd)" by (simp only: day_of_keys [OF dist])
  finally show ?thesis by (simp add: comp_def)
qed

text \<open>
  C8: the order counts of the daily rows add up to the number of transactions whose
  timestamp parses; the dates of the rows are exactly the dates of those transactions,
  each once, in ascending order. A transaction whose timestamp does not parse changes
  nothing in the table and raises nothing.
\<close>

theorem C8_daily_summary:
  "sum_list (map (\<lambda>entry. day_count (snd entry)) (daily_summary fadd strptime orders))
     = length (filter (parsable strptime) (dicts orders))
   \<and> sorted (map fst (daily_summary fadd strptime orders))
   \<and> distinct (map fst (daily_summary fadd strptime orders))
   \<and> set (map fst (daily_summary fadd strptime orders))
       = (\<lambda>ord. fst (the (order_datetime strptime ord)))
           ` {ord \<in> set (dicts orders). parsable strptime ord}"
proof -
  have "sum_list (map (\<lambda>entry. day_count (snd entry)) (daily_summary fadd strptime orders))
     = length (filter (parsable strptime) (dicts orders))"
    by (simp add: daily_summary_counts date_data_def date_fold_count)
  moreover have "sorted (map fst (daily_summary fadd strptime orders))"
    by (simp add: daily_summary_dates)
  moreover have "distinct (map fst (daily_summary fadd strptime orders))"
    by (simp add: daily_summary_dates date_data_distinct)
  moreover have "set (map fst (daily_summary fadd strptime orders))
       = (\<lambda>ord. fst (the (order_datetime strptime ord)))
           ` {ord \<in> set (dicts orders). parsable strptime ord}"
    unfolding daily_summary_dates by (simp add: date_data_def date_fold_keys)
  ultimately show ?thesis by blast
qed


text \<open>
  Five orders: two on 5 January, one on 4 January, one with a text that is no
  timestamp and one without a timestamp. The table has the two days in ascending
  order and counts three orders.
\<close>

theorem C8_daily_summary_witness:
  "daily_summary (+)
     (\<lambda>s. if s = ''2024-01-05 10:00:00'' then Some ((2024, 1, 5), 10, 0, 0)
          else if s = ''2024-01-04 09:30:00'' then Some ((2024, 1, 4), 9, 30, 0)
          else None)
     [Some \<lparr>partner_id = RInt 7, config_id = ROther, amount_total = Some 100,
             date_order = Some ''2024-01-05 10:00:00'', pos_reference = []\<rparr>,
      Some \<lparr>partner_id = RInt 7, config_id = ROther, amount_total = Some 70,
             date_order = Some ''yesterday'', pos_reference = []\<rparr>,
      Some \<lparr>partner_id = RBool False, config_id = ROther, amount_total = Some 50,
             date_order = Some ''2024-01-04 09:30:00'', pos_reference = []\<rparr>,
      Some \<lparr>partner_id = RInt 7, config_id = ROther, amount_total = Some 150,
             date_order = Some ''2024-01-05 10:00:00'', pos_reference = []\<rparr>,
      Some \<lparr>partner_id = RInt 8, config_id = ROther, amount_total = Some 20,
             date_order = None, pos_reference = []\<rparr>]
   = [((2024, 1, 4), \<lparr>day_count = 1, day_total = 50\<rparr>),
      ((2024, 1, 5), \<lparr>day_count = 2, day_total = 250\<rparr>)]
   \<and> length (filter
       (parsable (\<lambda>s. if s = ''2024-01-05 10:00:00'' then Some ((2024, 1, 5), 10, 0, 0)
          else if s = ''2024-01-04 09:30:00'' then Some ((2024, 1, 4), 9, 30, 0)
          else None))
       (dicts
     [Some \<lparr>partner_id = RInt 7, config_id = ROther, amount_total = Some 100,
             date_order = Some ''2024-01-05 10:00:00'', pos_reference = []\<rparr>,
      Some \<lparr>partner_id = RInt 7, config_id = ROther, amount_total = Some 70,
             date_order = Some ''yesterday'', pos_reference = []\<rparr>,
      Some \<lparr>partner_id = RBool False, config_id = ROther, amount_total = Some 50,
             date_order = Some ''2024-01-04 09:30:00'', pos_reference = []\<rparr>,
      Some \<lparr>partner_id = RInt 7, config_id = ROther, amount_total = Some 150,
             date_order = Some ''2024-01-05 10:00:00'', pos_reference = []\<rparr>,
      Some \<lparr>partner_id = RInt 8, config_id = ROther, amount_total = Some 20,
             date_order = None, pos_reference = []\<rparr>])) = 3"
  (is "daily_summary (+) ?sp ?orders = ?rows \<and> _")
proof -
  have rows: "daily_summary (+) ?sp ?orders = ?rows"
    by (simp add: daily_summary_def sorted_dates_def date_data_def date_step_def
        order_datetime_def day_of_def new_day_def amount_def)
  from C8_daily_summary [of "(+)" ?sp ?orders]
  have "sum_list (map (\<lambda>entry. day_count (snd entry)) (daily_summary (+) ?sp ?orders))
     = length (filter (parsable ?sp) (dicts ?orders))" by blast
  then have "length (filter (parsable ?sp) (dicts ?orders)) = 3"
    unfolding rows by simp
  with rows show ?thesis by blast
qed


section \<open>The total rows of the workbook\<close>

lemma str_nat_digits: "str_nat 4 = ''4''" "str_nat 5 = ''5''" "str_nat 7 = ''7''"
  by (simp_all add: str_nat.simps digit_char_def)

lemma detail_row_rows: "rows_written (detail_row sp pd cd r ord) = {r}"
  by (simp add: rows_written_def detail_row_def Let_def)

lemma rows_written_append [simp]:
  "rows_written (xs @ ys) = rows_written xs \<union> rows_written ys"
  by (auto simp: rows_written_def)

lemma detail_rows_within:
  "rows_written (detail_rows sp pd cd r orders) \<subseteq> {r..<r + length orders}"
proof (induction orders arbitrary: r)
  case Nil
  then show ?case by (simp add: rows_written_def)
next
  case (Cons item orders)
  from Cons.IH [of "Suc r"] show ?case
    by (cases item) (auto simp: detail_row_rows)
qed

lemma detail_rows_all:
  "None \<notin> set orders \<Longrightarrow> rows_written (detail_rows sp pd cd r orders) = {r..<r + length orders}"
proof (induction orders arbitrary: r)
  case Nil
  then show ?case by (simp add: rows_written_def)
next
  case (Cons item orders)
  then obtain ord where item: "item = Some ord" by (cases item) auto
  from Cons.prems have "None \<notin> set orders" by simp
  from Cons.IH [OF this, of "Suc r"] show ?case
    unfolding item by (auto simp: detail_row_rows)
qed

lemma order_details_total_formula:
  "order_details_total orders =
     [((length orders + 4, 6), CStr ''TOTAL:''),
      ((length orders + 4, 7),
       CFormula (sum_formula ''Order Details'' ''H'' 5 (length orders + 4)))]"
  by (simp add: order_details_total_def sum_formula_def str_nat_digits Let_def)

lemma customer_summary_total_formula:
  "customer_summary_total entries =
     [((length entries + 4, 3), CStr ''TOTAL:''),
      ((length entries + 4, 4),
       CFormula (sum_formula ''Customer Summary'' ''E'' 5 (length entries + 4))),
      ((length entries + 4, 5),
       CFormula (sum_formula ''Customer Summary'' ''F'' 5 (length entries + 4)))]"
  by (simp add: customer_summary_total_def sum_formula_def str_nat_digits Let_def)

text \<open>With at least one order, all of them dictionaries, the range is right.\<close>

lemma order_details_range:
  assumes "orders \<noteq> []" and "None \<notin> set orders"
  shows "sheet_row ` rows_written (detail_rows sp pd cd 4 orders) = {5..length orders + 4}"
    and "sheet_row 3 \<notin> {5..length orders + 4}"
    and "sheet_row (length orders + 4) \<notin> {5..length orders + 4}"
proof -
  have "sheet_row ` {4..<4 + length orders} = {5..length orders + 4}"
  proof
    show "sheet_row ` {4..<4 + length orders} \<subseteq> {5..length orders + 4}"
      by (auto simp: sheet_row_def)
    show "{5..length orders + 4} \<subseteq> sheet_row ` {4..<4 + length orders}"
    proof
      fix x assume "x \<in> {5..length orders + 4}"
      then have "x = sheet_row (x - 1)" "x - 1 \<in> {4..<4 + length orders}"
        by (auto simp: sheet_row_def)
      then show "x \<in> sheet_row ` {4..<4 + length orders}" by blast
    qed
  qed
  then show "sheet_row ` rows_written (detail_rows sp pd cd 4 orders) = {5..length orders + 4}"
    using detail_rows_all [OF assms(2)] by simp
  show "sheet_row 3 \<notin> {5..length orders + 4}" by (simp add: sheet_row_def)
  show "sheet_row (length orders + 4) \<notin> {5..length orders + 4}" by (simp add: sheet_row_def)
qed

text \<open>
  C1: the total row sums exactly the data rows, also when there are none. For an empty
  order list the data loop writes nothing and the total row is row 4 as
  \<^verbatim>\<open>write\<close> counts, sheet row 5; the formula written into its cell \<^verbatim>\<open>H5\<close> is
  \<^verbatim>\<open>=SUM('Order Details'!H5:H4)\<close>, a range that runs from the formula's own row to
  the header row. The customer sheet does the same in columns \<^verbatim>\<open>E\<close> and \<^verbatim>\<open>F\<close>
  as soon as no order has a customer, whereas the chart, whose ranges are built the
  same way, is left out when there is no date.
\<close>

theorem C1_total_formula_without_rows:
  "order_details_sheet sp pd cd [] =
     write_row 3 0 (map CHeader [0..<9])
     @ [((4, 6), CStr ''TOTAL:''), ((4, 7), CFormula ''=SUM('Order Details'!H5:H4)'')]
   \<and> ''=SUM('Order Details'!H5:H4)'' = sum_formula ''Order Details'' ''H'' (sheet_row 4) (sheet_row 3)
   \<and> customer_summary_sheet fadd fdiv pd
        [Some \<lparr>partner_id = RBool False, config_id = RList (PInt 3), amount_total = Some 50,
                date_order = Some ''2024-01-05 10:00:00'', pos_reference = ''Order 1''\<rparr>] =
     write_row 3 0 (map CHeader [0..<7])
     @ [((4, 3), CStr ''TOTAL:''),
        ((4, 4), CFormula ''=SUM('Customer Summary'!E5:E4)''),
        ((4, 5), CFormula ''=SUM('Customer Summary'!F5:F4)'')]
   \<and> chart_ranges [] = None"
  by (simp add: order_details_sheet_def order_details_total_def customer_summary_sheet_def
      customer_summary_total_def customer_data_def customer_step_def sum_formula_def
      sheet_row_def str_nat_digits chart_ranges_def Let_def)


text \<open>The customer rows are written into the rows from 4 on, one for each entry.\<close>

lemma summary_rows_written:
  "rows_written (concat (map (\<lambda>(row_idx, entry). summary_row fdiv row_idx entry)
      (enumerate r entries)))
     = {r..<r + length entries}"
proof (induction entries arbitrary: r)
  case Nil
  then show ?case by (simp add: rows_written_def)
next
  case (Cons entry entries)
  have "rows_written (summary_row fdiv r entry) = {r}"
    by (cases entry) (simp add: rows_written_def summary_row_def)
  with Cons.IH [of "Suc r"] show ?case by auto
qed


section \<open>Walk-in transactions\<close>

lemma collect_ids_walk_in:
  assumes "\<not> truthy (normalize_ref (partner_id ord))"
  shows "fst (collect_ids (pre @ Some ord # rest)) = fst (collect_ids (pre @ rest))"
  using assms by (simp add: collect_ids_def)

lemma customer_data_walk_in:
  assumes "\<not> truthy (normalize_ref (partner_id ord))"
  shows "customer_data fadd pd (pre @ Some ord # rest) = customer_data fadd pd (pre @ rest)"
  using assms by (simp add: customer_data_def customer_step_def Let_def)

lemma detail_row_walk_in:
  assumes "\<not> truthy (normalize_ref (partner_id ord))"
  shows "map (\<lambda>col. map_of (detail_row sp pd cd r ord) (r, col)) [3, 4, 5, 6]
    = [Some (CStr []), Some (CStr []), Some (CStr []), Some (CStr [])]"
proof -
  from assms have "id_cell (normalize_ref (partner_id ord)) = CStr []"
    by (cases "normalize_ref (partner_id ord)") auto
  with assms show ?thesis
    by (simp add: detail_row_def Let_def dict_get_def get_str_def)
qed

text \<open>
  C10: a customer reference that is \<^verbatim>\<open>False\<close> or \<^verbatim>\<open>0\<close> is normalised to
  itself, not to \<^verbatim>\<open>None\<close>, and is falsy. So the order adds no id to the customer
  ids that \<^verbatim>\<open>fetch_related_data\<close> reads, leaves the customer table as it is
  without the order, and has empty strings in the customer id, name, phone and e-mail
  cells (columns 3 to 6) of its detail row.
\<close>

theorem C10_false_reference_is_walk_in:
  assumes "partner_id ord = RBool False \<or> partner_id ord = RInt 0"
  shows "normalize_ref (RBool False) = PBool False \<and> normalize_ref (RInt 0) = PInt 0
    \<and> normalize_ref (partner_id ord) \<noteq> PNone
    \<and> \<not> truthy (normalize_ref (partner_id ord))
    \<and> fst (collect_ids (pre @ Some ord # rest)) = fst (collect_ids (pre @ rest))
    \<and> customer_data fadd partner_dict (pre @ Some ord # rest)
        = customer_data fadd partner_dict (pre @ rest)
    \<and> map (\<lambda>col. map_of (detail_row strptime partner_dict config_dict row_num ord) (row_num, col))
          [3, 4, 5, 6]
        = [Some (CStr []), Some (CStr []), Some (CStr []), Some (CStr [])]"
proof -
  from assms have falsy: "\<not> truthy (normalize_ref (partner_id ord))" by auto
  from assms have "normalize_ref (partner_id ord) \<noteq> PNone" by auto
  with falsy collect_ids_walk_in [OF falsy] customer_data_walk_in [OF falsy]
    detail_row_walk_in [OF falsy]
  show ?thesis by simp
qed

text \<open>
  A customer order followed by an order whose reference is \<^verbatim>\<open>False\<close>: the table and
  the ids to read are those of the customer order alone, and the id cell of the
  walk-in's detail row is empty although the customer map has an entry.
\<close>

theorem C10_false_reference_is_walk_in_witness:
  "customer_data (+) Map.empty
     [Some \<lparr>partner_id = RList (PInt 7), config_id = ROther, amount_total = Some 100,
             date_order = None, pos_reference = []\<rparr>,
      Some \<lparr>partner_id = RBool False, config_id = ROther, amount_total = Some 50,
             date_order = None, pos_reference = []\<rparr>]
   = customer_data (+) Map.empty
     [Some \<lparr>partner_id = RList (PInt 7), config_id = ROther, amount_total = Some 100,
             date_order = None, pos_reference = []\<rparr>]
   \<and> fst (collect_ids
     [Some \<lparr>partner_id = RList (PInt 7), config_id = ROther, amount_total = Some 100,
             date_order = None, pos_reference = []\<rparr>,
      Some \<lparr>partner_id = RBool False, config_id = ROther, amount_total = Some 50,
             date_order = None, pos_reference = []\<rparr>]) = [PInt 7]
   \<and> map_of (detail_row (\<lambda>s. None) [7 \<mapsto> \<lparr>p_id = 7, p_name = ''Asha'', p_mobile = ''+919876543210'',
                 p_email = ''a@example.org''\<rparr>] Map.empty 5
               \<lparr>partner_id = RBool False, config_id = ROther, amount_total = Some 50,
                date_order = None, pos_reference = []\<rparr>) (5, 3) = Some (CStr [])"
proof -
  let ?a = "\<lparr>partner_id = RList (PInt 7), config_id = ROther, amount_total = Some 100,
             date_order = None, pos_reference = []\<rparr>"
  let ?w = "\<lparr>partner_id = RBool False, config_id = ROther, amount_total = Some 50,
             date_order = None, pos_reference = []\<rparr>"
  let ?pd = "[7 \<mapsto> \<lparr>p_id = 7, p_name = ''Asha'', p_mobile = ''+919876543210'',
                 p_email = ''a@example.org''\<rparr>]"
  have shape: "partner_id ?w = RBool False \<or> partner_id ?w = RInt 0" by simp
  have ids: "fst (collect_ids [Some ?a]) = [PInt 7]" by (simp add: collect_ids_def)
  from C10_false_reference_is_walk_in [OF shape, where pre = "[Some ?a]" and rest = "[]"
      and partner_dict = Map.empty and fadd = "(+)"]
  have a: "customer_data (+) Map.empty [Some ?a, Some ?w] = customer_data (+) Map.empty [Some ?a]"
    and b: "fst (collect_ids [Some ?a, Some ?w]) = fst (collect_ids [Some ?a])"
    by simp_all
  from C10_false_reference_is_walk_in [OF shape, where strptime = "\<lambda>s. None"
      and partner_dict = ?pd and config_dict = Map.empty and row_num = 5]
  have c: "map_of (detail_row (\<lambda>s. None) ?pd Map.empty 5 ?w) (5, 3) = Some (CStr [])"
    by simp
  from a b c ids show ?thesis by simp
qed


end
